theory Spec2Isabelle
  imports Main
begin

section \<open>Python values, errors and effects\<close>

text \<open>
  The objects that flow through the loader of \<^verbatim>\<open>vivarium/framework/components.py\<close>:
  what \<^verbatim>\<open>ast.literal_eval\<close> returns, what a class attribute holds and what a
  registered constructor produces. \<open>VObj n\<close> is a reference to a host object, identified by
  its handle \<open>n\<close>.
\<close>

datatype pyval =
    VNone
  | VBool bool
  | VInt int
  | VStr string
  | VTuple "pyval list"
  | VList "pyval list"
  | VDict "(pyval \<times> pyval) list"
  | VObj nat

text \<open>
  An entry of \<^verbatim>\<open>ComponentManager.components\<close>: the singleton \<^verbatim>\<open>None\<close> or a
  reference to a host object. Two references are the same object (\<^verbatim>\<open>is\<close>) exactly
  when they are equal in HOL.
\<close>

datatype ref = PyNone | Obj nat

text \<open>The exceptions the module raises or lets through.\<close>

datatype error =
    ComponentConfigError string
  | ParsingError string
  | TypeError
  | AttributeError
  | IndexError
  | SyntaxError
  | ImportError
  | ValueError
  | HostError

text \<open>
  The keys of the constructor registry \<^verbatim>\<open>dataset_manager.constructors\<close>: the parser looks
  a constructor up by name, the loader by the class of an attribute.
\<close>

datatype key = KName string | KClass string

type_synonym registry = "key \<Rightarrow> (pyval \<Rightarrow> pyval) option"

text \<open>
  The effects of the module on its collaborators, in the order they happen:
  a call \<^verbatim>\<open>config.read_dict(d, layer=l, source=c)\<close> of the external layered store, a call
  of a registered constructor, the invocation of a resolved callable at load time, and a
  call of a component's \<^verbatim>\<open>setup\<close>.
\<close>

datatype event =
    ReadDict pyval string ref
  | CtorCall key pyval
  | Invoke nat "pyval list"
  | SetupCall ref

section \<open>Descriptor extraction\<close>

text \<open>
  The configuration handed to \<^verbatim>\<open>_extract_component_list\<close>, as a YAML document gives it:
  strings, mappings with string keys (in iteration order), sequences, and scalars that are
  neither (a number, \<^verbatim>\<open>None\<close>).
\<close>

datatype node =
    NStr string
  | NDict "(string \<times> node) list"
  | NList "node list"
  | NInt int
  | NNone

text \<open>\<^verbatim>\<open>sep.join(xs)\<close> on a list of strings.\<close>

fun join :: "string \<Rightarrow> string list \<Rightarrow> string" where
  "join sep [] = []"
| "join sep [x] = x"
| "join sep (x # y # ys) = x @ sep @ join sep (y # ys)"

text \<open>
  \<^verbatim>\<open>_process_level(level, prefix)\<close>. \<open>process_level\<close> starts the \<^verbatim>\<open>for child in level\<close>
  loop: a sequence yields its elements, a mapping its keys and a string its characters
  (none of which is a \<^verbatim>\<open>dict\<close>, so each is joined to the prefix), and a scalar cannot be
  iterated. \<open>process_children\<close> is the loop over the children, \<open>process_items\<close> the loop
  over \<^verbatim>\<open>child.items()\<close>. A child that is not a \<^verbatim>\<open>dict\<close> goes to
  \<^verbatim>\<open>'.'.join(prefix + [child])\<close>, which raises \<^verbatim>\<open>TypeError\<close> unless the child is a
  string.
\<close>

fun process_level :: "node \<Rightarrow> string list \<Rightarrow> error + string list"
  and process_children :: "node list \<Rightarrow> string list \<Rightarrow> error + string list"
  and process_items :: "(string \<times> node) list \<Rightarrow> string list \<Rightarrow> error + string list" where
  "process_level (NList children) prefix = process_children children prefix"
| "process_level (NDict items) prefix = Inr (map (\<lambda>(k, v). join ''.'' (prefix @ [k])) items)"
| "process_level (NStr s) prefix = Inr (map (\<lambda>c. join ''.'' (prefix @ [[c]])) s)"
| "process_level (NInt i) prefix = Inl TypeError"
| "process_level NNone prefix = Inl TypeError"
| "process_children [] prefix = Inr []"
| "process_children (NDict items # rest) prefix =
     (case process_items items prefix of
        Inl e \<Rightarrow> Inl e
      | Inr component_list \<Rightarrow>
          (case process_children rest prefix of
             Inl e \<Rightarrow> Inl e
           | Inr others \<Rightarrow> Inr (component_list @ others)))"
| "process_children (NStr child # rest) prefix =
     (case process_children rest prefix of
        Inl e \<Rightarrow> Inl e
      | Inr others \<Rightarrow> Inr (join ''.'' (prefix @ [child]) # others))"
| "process_children (child # rest) prefix = Inl TypeError"
| "process_items [] prefix = Inr []"
| "process_items ((path_suffix, sub_level) # rest) prefix =
     (case process_level sub_level (prefix @ [path_suffix]) of
        Inl e \<Rightarrow> Inl e
      | Inr component_list \<Rightarrow>
          (case process_items rest prefix of
             Inl e \<Rightarrow> Inl e
           | Inr others \<Rightarrow> Inr (component_list @ others)))"

definition extract_component_list :: "node \<Rightarrow> error + string list" where
  "extract_component_list component_config = process_level component_config []"

text \<open>
  The configurations on which the traversal meets something it cannot handle: a level
  that cannot be iterated, or a child of a sequence that is neither a string nor a mapping,
  at any depth the traversal reaches.
\<close>

fun bad_level :: "node \<Rightarrow> bool"
  and bad_children :: "node list \<Rightarrow> bool"
  and bad_items :: "(string \<times> node) list \<Rightarrow> bool" where
  "bad_level (NList children) = bad_children children"
| "bad_level (NDict items) = False"
| "bad_level (NStr s) = False"
| "bad_level (NInt i) = True"
| "bad_level NNone = True"
| "bad_children [] = False"
| "bad_children (NDict items # rest) = (bad_items items \<or> bad_children rest)"
| "bad_children (NStr child # rest) = bad_children rest"
| "bad_children (child # rest) = True"
| "bad_items [] = False"
| "bad_items ((path_suffix, sub_level) # rest) = (bad_level sub_level \<or> bad_items rest)"

section \<open>Descriptor parsing\<close>

text \<open>
  The nodes of Python's \<^verbatim>\<open>ast\<close> that a descriptor can contain. \<open>Num n\<close> also stands for
  a signed number; keyword arguments of a call are not represented. \<^verbatim>\<open>ast.parse\<close>
  itself is a parameter of the parser below.
\<close>

datatype expr =
    Num int
  | Str string
  | NameConstant "bool option"
  | Name string
  | Attribute expr string
  | Call expr "expr list"
  | Tuple "expr list"
  | List "expr list"

datatype stmt = Expr expr | Assign "expr list" expr | Pass

text \<open>
  \<^verbatim>\<open>ast.literal_eval\<close> on a node: constants and containers of constants evaluate, every
  other node raises \<^verbatim>\<open>ValueError\<close>.
\<close>

fun literal_eval :: "expr \<Rightarrow> error + pyval"
  and literal_eval_elts :: "expr list \<Rightarrow> error + pyval list" where
  "literal_eval (Num n) = Inr (VInt n)"
| "literal_eval (Str s) = Inr (VStr s)"
| "literal_eval (NameConstant None) = Inr VNone"
| "literal_eval (NameConstant (Some v)) = Inr (VBool v)"
| "literal_eval (Tuple elts) =
     (case literal_eval_elts elts of Inl e \<Rightarrow> Inl e | Inr vs \<Rightarrow> Inr (VTuple vs))"
| "literal_eval (List elts) =
     (case literal_eval_elts elts of Inl e \<Rightarrow> Inl e | Inr vs \<Rightarrow> Inr (VList vs))"
| "literal_eval (Name i) = Inl ValueError"
| "literal_eval (Attribute v a) = Inl ValueError"
| "literal_eval (Call f args) = Inl ValueError"
| "literal_eval_elts [] = Inr []"
| "literal_eval_elts (x # xs) =
     (case literal_eval x of
        Inl e \<Rightarrow> Inl e
      | Inr v \<Rightarrow> (case literal_eval_elts xs of Inl e \<Rightarrow> Inl e | Inr vs \<Rightarrow> Inr (v # vs)))"

text \<open>\<^verbatim>\<open>_is_literal\<close>: \<^verbatim>\<open>literal_eval\<close> did not raise \<^verbatim>\<open>ValueError\<close>.\<close>

definition is_literal :: "expr \<Rightarrow> bool" where
  "is_literal expression = (case literal_eval expression of Inl e \<Rightarrow> False | Inr v \<Rightarrow> True)"

text \<open>
  \<^verbatim>\<open>_component_ast_to_path\<close>: the \<^verbatim>\<open>while isinstance(current, ast.Attribute)\<close> loop with
  \<^verbatim>\<open>path.insert(0, ...)\<close>, then \<^verbatim>\<open>current.id\<close>, which only a \<^verbatim>\<open>Name\<close> has.
\<close>

fun component_ast_to_path_loop :: "expr \<Rightarrow> string list \<Rightarrow> error + string list" where
  "component_ast_to_path_loop (Attribute v attr) path = component_ast_to_path_loop v (attr # path)"
| "component_ast_to_path_loop (Name i) path = Inr (i # path)"
| "component_ast_to_path_loop current path = Inl AttributeError"

fun component_ast_to_path :: "expr \<Rightarrow> error + string" where
  "component_ast_to_path (Name i) = Inr i"
| "component_ast_to_path component =
     (case component_ast_to_path_loop component [] of
        Inl e \<Rightarrow> Inl e
      | Inr path \<Rightarrow> Inr (join ''.'' path))"

text \<open>
  \<^verbatim>\<open>_extract_component_call\<close>: \<^verbatim>\<open>definition.body[0].value\<close> must be a call, whose
  \<^verbatim>\<open>func\<close> and \<^verbatim>\<open>args\<close> are returned.
\<close>

fun extract_component_call :: "stmt list \<Rightarrow> error + (expr \<times> expr list)" where
  "extract_component_call [] = Inl IndexError"
| "extract_component_call (Expr (Call func args) # body) = Inr (func, args)"
| "extract_component_call (Assign targets (Call func args) # body) = Inr (func, args)"
| "extract_component_call (definition_expression # body) = Inl AttributeError"

text \<open>
  The \<^verbatim>\<open>for arg in args\<close> loop of \<^verbatim>\<open>_parse_component\<close>, on the list
  \<^verbatim>\<open>transformed_args\<close> and the constructor calls made so far. An argument that is neither
  a literal nor a call falls through both \<^verbatim>\<open>if\<close>s: nothing is appended and nothing is
  raised.
\<close>

fun transform_args ::
  "string \<Rightarrow> registry \<Rightarrow> expr list \<Rightarrow> pyval list \<times> event list \<Rightarrow>
     error + (pyval list \<times> event list)" where
  "transform_args definition constructors [] acc = Inr acc"
| "transform_args definition constructors (arg # args) (transformed_args, evs) =
     (if is_literal arg then
        (case literal_eval arg of
           Inl e \<Rightarrow> Inl e
         | Inr v \<Rightarrow> transform_args definition constructors args (transformed_args @ [v], evs))
      else
        (case arg of
           Call func constructor_args \<Rightarrow>
             (case func of
                Name constructor \<Rightarrow>
                  (case constructors (KName constructor) of
                     None \<Rightarrow> Inl (ParsingError (''Invalid syntax: '' @ definition))
                   | Some f \<Rightarrow>
                       (case constructor_args of
                          [Str s] \<Rightarrow>
                            transform_args definition constructors args
                              (transformed_args @ [f (VStr s)],
                               evs @ [CtorCall (KName constructor) (VStr s)])
                        | _ \<Rightarrow> Inl (ParsingError (''Invalid syntax: '' @ definition))))
              | _ \<Rightarrow> Inl AttributeError)
         | _ \<Rightarrow> transform_args definition constructors args (transformed_args, evs)))"

text \<open>
  \<^verbatim>\<open>_parse_component(definition, constructors)\<close>; \<open>ast_parse\<close> stands for
  \<^verbatim>\<open>ast.parse\<close>. The result is the importable path, the transformed arguments and the
  constructor calls made.
\<close>

definition parse_component ::
  "(string \<Rightarrow> error + stmt list) \<Rightarrow> string \<Rightarrow> registry \<Rightarrow>
     error + ((string \<times> pyval list) \<times> event list)" where
  "parse_component ast_parse definition constructors =
     (case ast_parse definition of
        Inl e \<Rightarrow> Inl e
      | Inr body \<Rightarrow>
          (case extract_component_call body of
             Inl e \<Rightarrow> Inl e
           | Inr (component, args) \<Rightarrow>
               (case component_ast_to_path component of
                  Inl e \<Rightarrow> Inl e
                | Inr path \<Rightarrow>
                    (case transform_args definition constructors args ([], []) of
                       Inl e \<Rightarrow> Inl e
                     | Inr (transformed_args, evs) \<Rightarrow> Inr ((path, transformed_args), evs)))))"

section \<open>Loading components\<close>












section \<open>The setup pass\<close>

text \<open>
  What \<^verbatim>\<open>component.setup(builder)\<close> returns: \<^verbatim>\<open>None\<close>; a sequence (a list or tuple),
  which is true iff it is not empty and yields the same elements each time it is iterated;
  or a one-shot iterator (a generator), which is always true and yields its elements to the
  first iteration only.
\<close>

datatype returned = RetNone | RetSeq "ref list" | RetIter "ref list"

text \<open>What the call does: it returns, or it raises.\<close>

datatype setup_result = Returns returned | Raises

text \<open>
  The host objects as \<^verbatim>\<open>setup_components\<close> observes them:
  \<open>iter_elems h a = Some f\<close> iff \<^verbatim>\<open>isinstance(a, Iterable)\<close>, and then \<open>f n\<close> are the
  elements that \<open>a\<close> yields when it is iterated after \<open>n\<close> earlier iterations (the same
  for every \<open>n\<close> if \<open>a\<close> is a list or a tuple; nothing for \<open>n > 0\<close> if \<open>a\<close> is a
  generator);
  \<open>configuration_defaults h a = Some d\<close> iff \<^verbatim>\<open>hasattr(a, 'configuration_defaults')\<close>;
  \<open>setup_attr h a = Some f\<close> iff \<^verbatim>\<open>hasattr(a, 'setup')\<close>, and then \<open>f builder\<close> is
  what the call does;
  \<open>py_eq h a e\<close> is the result of the comparison \<^verbatim>\<open>==\<close> between the object \<open>a\<close> and
  the list element \<open>e\<close>, as the \<^verbatim>\<open>__eq__\<close> methods of the two decide it (for objects
  that define none, it holds of \<open>a\<close> itself only).
\<close>

record 'b host =
  iter_elems :: "nat \<Rightarrow> (nat \<Rightarrow> ref list) option"
  configuration_defaults :: "nat \<Rightarrow> pyval option"
  setup_attr :: "nat \<Rightarrow> ('b \<Rightarrow> setup_result) option"
  py_eq :: "nat \<Rightarrow> ref \<Rightarrow> bool"

text \<open>
  Python's \<^verbatim>\<open>x in ys\<close> on a list: true iff some element \<open>e\<close> of \<open>ys\<close> satisfies
  \<^verbatim>\<open>x is e or x == e\<close>.
\<close>

definition py_in :: "'b host \<Rightarrow> nat \<Rightarrow> ref list \<Rightarrow> bool" where
  "py_in h a ys = list_ex (\<lambda>e. e = Obj a \<or> py_eq h a e) ys"

text \<open>
  The variables of \<^verbatim>\<open>setup_components\<close>: \<^verbatim>\<open>self.components\<close>, the local worklist
  \<^verbatim>\<open>components\<close> and the local list \<^verbatim>\<open>done\<close>; and the state of the world around it:
  the effects so far, and the objects that have been iterated, once for each iteration.
\<close>

record state =
  self_components :: "ref list"
  components :: "ref list"
  done_list :: "ref list"
  events :: "event list"
  iterated :: "nat list"

definition none_message :: string where
  "none_message = ''None in component list. This likely indicates a bug in a factory function''"

text \<open>
  The body of the \<^verbatim>\<open>while components:\<close> loop, for one iteration. An exception leaves
  the state as it is at the \<^verbatim>\<open>raise\<close>. An iterable entry is iterated twice, by
  \<^verbatim>\<open>components.extend(component)\<close> and then by \<^verbatim>\<open>self.components.extend(component)\<close>,
  and so is what the setup callback returns. There is no \<^verbatim>\<open>continue\<close> after the
  unpacking of an iterable entry: the entry itself goes on to the \<^verbatim>\<open>not in done\<close> test.
\<close>

definition step :: "'b host \<Rightarrow> 'b \<Rightarrow> state \<Rightarrow> (error \<times> state) + state" where
  "step h builder s =
     (case components s of
        [] \<Rightarrow> Inl (IndexError, s)
      | component # rest \<Rightarrow>
          let s1 = s\<lparr>components := rest\<rparr> in
          (case component of
             PyNone \<Rightarrow> Inl (ComponentConfigError none_message, s1)
           | Obj a \<Rightarrow>
               let s2 = (case iter_elems h a of
                           None \<Rightarrow> s1
                         | Some elems \<Rightarrow>
                             let n = count_list (iterated s1) a in
                             s1\<lparr>components := components s1 @ elems n,
                                self_components := self_components s1 @ elems (Suc n),
                                iterated := iterated s1 @ [a, a]\<rparr>)
               in
               if py_in h a (done_list s2) then Inr s2
               else
                 let s3 = (case configuration_defaults h a of
                             None \<Rightarrow> s2
                           | Some d \<Rightarrow>
                               s2\<lparr>events := events s2 @ [ReadDict d ''component_configs'' (Obj a)]\<rparr>)
                 in
                 (case setup_attr h a of
                    None \<Rightarrow> Inr s3
                  | Some f \<Rightarrow>
                      let s4 = s3\<lparr>events := events s3 @ [SetupCall (Obj a)]\<rparr> in
                      (case f builder of
                         Raises \<Rightarrow> Inl (HostError, s4)
                       | Returns sub_components \<Rightarrow>
                           let s5 = s4\<lparr>done_list := done_list s4 @ [Obj a]\<rparr> in
                           (case sub_components of
                              RetNone \<Rightarrow> Inr s5
                            | RetSeq [] \<Rightarrow> Inr s5
                            | RetSeq subs \<Rightarrow>
                                Inr (s5\<lparr>components := components s5 @ subs,
                                        self_components := self_components s5 @ subs\<rparr>)
                            | RetIter subs \<Rightarrow>
                                Inr (s5\<lparr>components := components s5 @ subs\<rparr>))))))"

text \<open>
  The loop. It need not end (a setup callback may return fresh components for ever, a
  container may contain itself), so it runs on fuel: \<open>None\<close> means the fuel ran out before
  the worklist was empty, \<open>Some (Inr s)\<close> that the loop ended normally in state \<open>s\<close>,
  \<open>Some (Inl (e, s))\<close> that \<open>e\<close> was raised in state \<open>s\<close>.
\<close>

fun setup_loop :: "'b host \<Rightarrow> 'b \<Rightarrow> nat \<Rightarrow> state \<Rightarrow> ((error \<times> state) + state) option" where
  "setup_loop h builder 0 s = (if components s = [] then Some (Inr s) else None)"
| "setup_loop h builder (Suc n) s =
     (if components s = [] then Some (Inr s)
      else (case step h builder s of
              Inl e \<Rightarrow> Some (Inl e)
            | Inr s' \<Rightarrow> setup_loop h builder n s'))"

text \<open>
  The state in which \<^verbatim>\<open>setup_components\<close> enters its loop, from the manager's list, the
  effects so far and the iterations so far: \<^verbatim>\<open>done = []\<close> and
  \<^verbatim>\<open>components = list(self.components)\<close>.
\<close>

definition init_state :: "ref list \<times> event list \<times> nat list \<Rightarrow> state" where
  "init_state m =
     \<lparr>self_components = fst m, components = fst m, done_list = [],
      events = fst (snd m), iterated = snd (snd m)\<rparr>"

text \<open>\<^verbatim>\<open>ComponentManager.setup_components(builder)\<close>.\<close>

definition setup_components ::
  "'b host \<Rightarrow> 'b \<Rightarrow> nat \<Rightarrow> ref list \<times> event list \<times> nat list \<Rightarrow>
     ((error \<times> state) + state) option" where
  "setup_components h builder fuel m = setup_loop h builder fuel (init_state m)"

text \<open>
  Two calls of \<^verbatim>\<open>setup_components\<close> on the same manager: the second starts from the
  \<^verbatim>\<open>self.components\<close> and the world the first one left.
\<close>

definition setup_components_twice ::
  "'b host \<Rightarrow> 'b \<Rightarrow> nat \<Rightarrow> ref list \<times> event list \<times> nat list \<Rightarrow>
     ((error \<times> state) + state) option" where
  "setup_components_twice h builder fuel m =
     (case setup_components h builder fuel m of
        Some (Inr s) \<Rightarrow>
          setup_components h builder fuel (self_components s, events s, iterated s)
      | r \<Rightarrow> r)"

text \<open>
  \<open>steps h builder n s\<close>: the first \<open>n\<close> iterations of the loop body from \<open>s\<close>. They
  dequeue the first \<open>n\<close> entries of the worklist of \<open>s\<close>.
\<close>

fun steps :: "'b host \<Rightarrow> 'b \<Rightarrow> nat \<Rightarrow> state \<Rightarrow> (error \<times> state) + state" where
  "steps h builder 0 s = Inr s"
| "steps h builder (Suc n) s =
     (case step h builder s of Inl e \<Rightarrow> Inl e | Inr s' \<Rightarrow> steps h builder n s')"

text \<open>The state in which an iteration or a pass ended, normally or not.\<close>

definition state_of :: "(error \<times> state) + state \<Rightarrow> state" where
  "state_of r = (case r of Inl (e, s) \<Rightarrow> s | Inr s \<Rightarrow> s)"

text \<open>The components whose \<^verbatim>\<open>setup\<close> was called, in call order.\<close>

fun setup_calls :: "event list \<Rightarrow> ref list" where
  "setup_calls [] = []"
| "setup_calls (SetupCall c # es) = c # setup_calls es"
| "setup_calls (e # es) = setup_calls es"

text \<open>
  An invariant of the loop: the setup calls of the pass that have returned are the entries
  of \<^verbatim>\<open>done\<close>, each once.
\<close>

definition calls_inv :: "ref list \<Rightarrow> state \<Rightarrow> bool" where
  "calls_inv pre s \<longleftrightarrow> setup_calls (events s) = pre @ done_list s \<and> distinct (done_list s)"

section \<open>Example inputs\<close>

text \<open>
  A host with eleven objects: \<open>0\<close> declares defaults and its setup returns \<open>[1, 2]\<close>;
  \<open>1\<close> and \<open>2\<close> have a setup that returns nothing; \<open>3\<close> has defaults and no setup;
  \<open>4\<close> is the list \<open>[1, 3]\<close>; \<open>5\<close> is iterable (it yields \<open>3\<close>) and has a setup of its
  own; \<open>6\<close> has a setup and compares equal to \<open>1\<close>; \<open>7\<close> has defaults, no setup, and
  compares equal to \<open>1\<close>; the setup of \<open>8\<close> raises; the setup of \<open>9\<close> returns \<open>[6, 2]\<close>;
  \<open>10\<close> is a generator that yields \<open>3\<close>.
\<close>

definition ex_defaults :: pyval where
  "ex_defaults = VDict [(VStr ''step_size'', VInt 1)]"

definition ex_host :: "unit host" where
  "ex_host =
     \<lparr>iter_elems = (\<lambda>a. if a = 4 then Some (\<lambda>n. [Obj 1, Obj 3])
                         else if a = 5 then Some (\<lambda>n. [Obj 3])
                         else if a = 10 then Some (\<lambda>n. if n = 0 then [Obj 3] else [])
                         else None),
      configuration_defaults = (\<lambda>a. if a = 0 \<or> a = 3 \<or> a = 7 then Some ex_defaults else None),
      setup_attr = (\<lambda>a. if a = 0 then Some (\<lambda>b. Returns (RetSeq [Obj 1, Obj 2]))
                         else if a = 1 \<or> a = 5 \<or> a = 6 then Some (\<lambda>b. Returns RetNone)
                         else if a = 2 then Some (\<lambda>b. Returns (RetSeq []))
                         else if a = 8 then Some (\<lambda>b. Raises)
                         else if a = 9 then Some (\<lambda>b. Returns (RetSeq [Obj 6, Obj 2]))
                         else None),
      py_eq = (\<lambda>a e. e = Obj a \<or> ((a = 6 \<or> a = 7) \<and> e = Obj 1))\<rparr>"

text \<open>
  What \<^verbatim>\<open>ast.parse\<close> returns on two descriptors, and a registry with the one constructor
  \<^verbatim>\<open>data\<close>.
\<close>

definition ex_descriptor :: string where
  "ex_descriptor = ''pkg.Thing(1, data(\"path/to/file\"), True)''"

definition ex_parse :: "string \<Rightarrow> error + stmt list" where
  "ex_parse definition =
     (if definition = ''pkg.Thing(foo, 1)''
        then Inr [Expr (Call (Attribute (Name ''pkg'') ''Thing'') [Name ''foo'', Num 1])]
      else if definition = ex_descriptor
        then Inr [Expr (Call (Attribute (Name ''pkg'') ''Thing'')
                    [Num 1, Call (Name ''data'') [Str ''path/to/file''], NameConstant (Some True)])]
      else Inl SyntaxError)"

definition ex_registry :: registry where
  "ex_registry k = (if k = KName ''data'' then Some (\<lambda>v. VObj 42) else None)"




section \<open>Properties of the extractor\<close>

lemma process_bad:
  "(bad_level l \<longrightarrow> process_level l p = Inl TypeError) \<and>
   (\<not> bad_level l \<longrightarrow> (\<exists>out. process_level l p = Inr out))"
  "(bad_children cs \<longrightarrow> process_children cs p = Inl TypeError) \<and>
   (\<not> bad_children cs \<longrightarrow> (\<exists>out. process_children cs p = Inr out))"
  "(bad_items its \<longrightarrow> process_items its p = Inl TypeError) \<and>
   (\<not> bad_items its \<longrightarrow> (\<exists>out. process_items its p = Inr out))"
  by (induction l p and cs p and its p rule: process_level_process_children_process_items.induct)
     auto

lemma process_items_append:
  "process_items (xs @ ys) p =
     (case process_items xs p of
        Inl e \<Rightarrow> Inl e
      | Inr out1 \<Rightarrow> (case process_items ys p of Inl e \<Rightarrow> Inl e | Inr out2 \<Rightarrow> Inr (out1 @ out2)))"
  by (induction xs) (auto split: sum.splits)

lemma bad_children_leaf:
  "child \<in> set cs \<Longrightarrow> (\<forall>s. child \<noteq> NStr s) \<Longrightarrow> (\<forall>its. child \<noteq> NDict its) \<Longrightarrow> bad_children cs"
  by (induction cs rule: bad_level_bad_children_bad_items.induct(2)[where P="\<lambda>_. True" and R="\<lambda>_. True"]) auto

text \<open>
  Claim C5 says that a mapping with more than one key, or a leaf that is neither a string
  nor a single-key mapping, raises a configuration error that names the entry.
  \<^verbatim>\<open>_process_level\<close> loops over \<^verbatim>\<open>child.items()\<close>, whatever the number of keys: a
  mapping with two keys is flattened, each key under its own prefix, and nothing is raised.
\<close>

theorem multi_key_mapping_counterexample:
  "extract_component_list (NList [NDict [(''a'', NList [NStr ''x'']), (''b'', NList [NStr ''y''])]]) =
     Inr [''a.x'', ''b.y'']"
  by (simp add: extract_component_list_def)

text \<open>
  Claim C5, amended: the only exception extraction raises is the \<^verbatim>\<open>TypeError\<close> of
  \<^verbatim>\<open>str.join\<close> or of iterating a scalar, which does not name the entry, and it raises it
  exactly on the configurations that hold, where the traversal reaches, a child that is
  neither a string nor a mapping or a level that cannot be iterated; in particular a
  sequence with such a child is never extracted with the child left out. A mapping with
  several keys is not an error: its keys are extracted in order, each under its own
  prefix, followed by the rest of the sequence.
\<close>

theorem extraction_errors:
  "(\<forall>e. extract_component_list cfg = Inl e \<longrightarrow> e = TypeError) \<and>
   (bad_level cfg \<longleftrightarrow> extract_component_list cfg = Inl TypeError) \<and>
   (child \<in> set children \<and> (\<forall>s. child \<noteq> NStr s) \<and> (\<forall>its. child \<noteq> NDict its) \<longrightarrow>
      process_children children prefix = Inl TypeError) \<and>
   process_children (NDict (items1 @ items2) # rest) prefix =
     (case process_items items1 prefix of
        Inl e \<Rightarrow> Inl e
      | Inr out1 \<Rightarrow>
          (case process_items items2 prefix of
             Inl e \<Rightarrow> Inl e
           | Inr out2 \<Rightarrow>
               (case process_children rest prefix of
                  Inl e \<Rightarrow> Inl e
                | Inr out3 \<Rightarrow> Inr (out1 @ out2 @ out3))))"
proof -
  have 1: "\<forall>e. extract_component_list cfg = Inl e \<longrightarrow> e = TypeError"
    using process_bad(1)[of cfg "[]"] by (auto simp: extract_component_list_def)
  have 2: "bad_level cfg \<longleftrightarrow> extract_component_list cfg = Inl TypeError"
    using process_bad(1)[of cfg "[]"] by (auto simp: extract_component_list_def)
  have 3: "child \<in> set children \<and> (\<forall>s. child \<noteq> NStr s) \<and> (\<forall>its. child \<noteq> NDict its) \<longrightarrow>
      process_children children prefix = Inl TypeError"
    using bad_children_leaf[of child children] process_bad(2)[of children prefix] by blast
  have 4: "process_children (NDict (items1 @ items2) # rest) prefix =
     (case process_items items1 prefix of
        Inl e \<Rightarrow> Inl e
      | Inr out1 \<Rightarrow>
          (case process_items items2 prefix of
             Inl e \<Rightarrow> Inl e
           | Inr out2 \<Rightarrow>
               (case process_children rest prefix of
                  Inl e \<Rightarrow> Inl e
                | Inr out3 \<Rightarrow> Inr (out1 @ out2 @ out3))))"
    by (simp add: process_items_append split: sum.splits)
  from 1 2 3 4 show ?thesis by blast
qed

theorem extraction_errors_witness:
  "extract_component_list (NList [NStr ''e.f'', NInt 5]) = Inl TypeError \<and>
   process_children [NDict ([(''a'', NList [NStr ''b.c'', NStr ''b.d''])] @ [(''g'', NList [NStr ''h''])]), NStr ''e.f''] [] =
     Inr [''a.b.c'', ''a.b.d'', ''g.h'', ''e.f'']"
proof -
  have "bad_level (NList [NStr ''e.f'', NInt 5])" by simp
  with extraction_errors[of "NList [NStr ''e.f'', NInt 5]"] have 1: "extract_component_list (NList [NStr ''e.f'', NInt 5]) = Inl TypeError"
    by blast
  from extraction_errors[where ?items1.0 = "[(''a'', NList [NStr ''b.c'', NStr ''b.d''])]"
      and ?items2.0 = "[(''g'', NList [NStr ''h''])]" and rest = "[NStr ''e.f'']" and prefix = "[]"]
  have 2: "process_children [NDict ([(''a'', NList [NStr ''b.c'', NStr ''b.d''])] @ [(''g'', NList [NStr ''h''])]), NStr ''e.f''] [] =
     Inr [''a.b.c'', ''a.b.d'', ''g.h'', ''e.f'']"
    by simp
  from 1 2 show ?thesis by blast
qed

section \<open>Properties of the parser\<close>

lemma transform_args_acc:
  "transform_args d cs xs (vals, evs) =
     (case transform_args d cs xs ([], []) of
        Inl e \<Rightarrow> Inl e
      | Inr (v, e) \<Rightarrow> Inr (vals @ v, evs @ e))"
proof (induction xs arbitrary: vals evs)
  case Nil
  then show ?case by simp
next
  case (Cons x xs)
  note IH = Cons.IH
  show ?case
  proof (cases "is_literal x")
    case True
    then obtain v where v: "literal_eval x = Inr v"
      by (auto simp: is_literal_def split: sum.splits)
    show ?thesis
      using True v IH[of "vals @ [v]" evs] IH[of "[v]" "[]"]
      by (auto split: sum.splits)
  next
    case False
    show ?thesis
    proof (cases x)
      case (Call func cargs)
      show ?thesis
      proof (cases func)
        case (Name c)
        show ?thesis
        proof (cases "cs (KName c)")
          case None
          with False Call Name show ?thesis by simp
        next
          case (Some f)
          show ?thesis
          proof (cases "\<exists>s. cargs = [Str s]")
            case True
            then obtain s where s: "cargs = [Str s]" by blast
            show ?thesis
              using False Call Name Some s
                IH[of "vals @ [f (VStr s)]" "evs @ [CtorCall (KName c) (VStr s)]"]
                IH[of "[f (VStr s)]" "[CtorCall (KName c) (VStr s)]"]
              by (auto split: sum.splits)
          next
            case F: False
            then show ?thesis
              using False Call Name Some
              by (auto split: list.splits expr.splits)
          qed
        qed
      qed (use False Call in simp_all)
    qed (use False IH[of vals evs] in \<open>simp_all\<close>)
  qed
qed

lemma transform_args_append:
  "transform_args d cs (xs @ ys) acc =
     (case transform_args d cs xs acc of
        Inl e \<Rightarrow> Inl e
      | Inr acc' \<Rightarrow> transform_args d cs ys acc')"
proof (induction xs arbitrary: acc)
  case Nil
  then show ?case by simp
next
  case (Cons x xs)
  obtain vals evs where acc: "acc = (vals, evs)" by (cases acc)
  show ?case unfolding acc
    using Cons.IH
    by (auto split: sum.splits expr.splits option.splits list.splits)
qed

lemma is_literal_Call: "\<not> is_literal (Call f args)"
  by (simp add: is_literal_def)

text \<open>
  Claim C2 says that an argument node that is neither a literal nor a nested constructor
  call with one string literal makes \<^verbatim>\<open>_parse_component\<close> raise, and is never silently
  dropped. The loop has no \<^verbatim>\<open>else\<close> for an argument that is neither a literal nor a
  call: on \<^verbatim>\<open>pkg.Thing(foo, 1)\<close> the name \<^verbatim>\<open>foo\<close> is dropped and the parse succeeds
  with the single argument \<open>1\<close>.
\<close>

theorem non_literal_argument_dropped:
  "parse_component ex_parse ''pkg.Thing(foo, 1)'' ex_registry = Inr ((''pkg.Thing'', [VInt 1]), [])"
  by (simp add: parse_component_def ex_parse_def is_literal_def)

text \<open>
  Claim C8: let the argument list of a descriptor hold the nested call
  \<^verbatim>\<open>c("s")\<close>, between the arguments \<open>pre\<close> and \<open>post\<close>. If \<open>c\<close> is not in the
  registry, the parse fails, and when the arguments before the call are accepted the failure
  is the \<^verbatim>\<open>ParsingError\<close> whose message holds the descriptor. If the registry maps \<open>c\<close>
  to \<open>f\<close> and the other arguments are accepted, the parse succeeds, \<open>f\<close> is called once
  for this argument, on \<open>s\<close>, and what it returns is the resolved argument, at the place
  of the call. For a descriptor whose only argument is the nested call, \<open>pre\<close> and \<open>post\<close>
  are empty and nothing is asked of the other arguments.
\<close>

theorem nested_constructor_resolved:
  assumes "ast_parse d = Inr body"
    "extract_component_call body = Inr (fn, pre @ Call (Name c) [Str s] # post)"
    "component_ast_to_path fn = Inr path"
  shows
   "(constructors (KName c) = None \<longrightarrow>
        (\<exists>e. parse_component ast_parse d constructors = Inl e) \<and>
        ((\<exists>acc. transform_args d constructors pre ([], []) = Inr acc) \<longrightarrow>
           parse_component ast_parse d constructors = Inl (ParsingError (''Invalid syntax: '' @ d)))) \<and>
    (\<forall>f vp ep vq eq. constructors (KName c) = Some f \<longrightarrow>
        transform_args d constructors pre ([], []) = Inr (vp, ep) \<longrightarrow>
        transform_args d constructors post ([], []) = Inr (vq, eq) \<longrightarrow>
        parse_component ast_parse d constructors =
          Inr ((path, vp @ [f (VStr s)] @ vq), ep @ [CtorCall (KName c) (VStr s)] @ eq))"
proof -
  let ?arg = "Call (Name c) [Str s]"
  have pc: "parse_component ast_parse d constructors =
      (case transform_args d constructors (pre @ ?arg # post) ([], []) of
         Inl e \<Rightarrow> Inl e
       | Inr (vals, evs) \<Rightarrow> Inr ((path, vals), evs))"
    using assms by (simp add: parse_component_def)
  have split: "transform_args d constructors (pre @ ?arg # post) ([], []) =
      (case transform_args d constructors pre ([], []) of
         Inl e \<Rightarrow> Inl e
       | Inr acc \<Rightarrow> transform_args d constructors (?arg # post) acc)"
    by (rule transform_args_append)
  have absent: "transform_args d constructors (?arg # post) acc = Inl (ParsingError (''Invalid syntax: '' @ d))"
    if "constructors (KName c) = None" for acc
    using that by (cases acc) (simp add: is_literal_Call)
  have present: "transform_args d constructors (?arg # post) (vp, ep) =
      Inr (vp @ [f (VStr s)] @ vq, ep @ [CtorCall (KName c) (VStr s)] @ eq)"
    if "constructors (KName c) = Some f" "transform_args d constructors post ([], []) = Inr (vq, eq)"
    for f vp ep vq eq
    using that transform_args_acc[of d constructors post "vp @ [f (VStr s)]" "ep @ [CtorCall (KName c) (VStr s)]"]
    by (simp add: is_literal_Call)
  show ?thesis
  proof (intro conjI impI allI)
    assume n: "constructors (KName c) = None"
    show "\<exists>e. parse_component ast_parse d constructors = Inl e"
      using pc split absent[OF n] by (auto split: sum.splits)
  next
    assume n: "constructors (KName c) = None"
      and "\<exists>acc. transform_args d constructors pre ([], []) = Inr acc"
    then show "parse_component ast_parse d constructors = Inl (ParsingError (''Invalid syntax: '' @ d))"
      using pc split absent[OF n] by auto
  next
    fix f vp ep vq eq
    assume "constructors (KName c) = Some f"
      "transform_args d constructors pre ([], []) = Inr (vp, ep)"
      "transform_args d constructors post ([], []) = Inr (vq, eq)"
    then show "parse_component ast_parse d constructors =
          Inr ((path, vp @ [f (VStr s)] @ vq), ep @ [CtorCall (KName c) (VStr s)] @ eq)"
      using pc split present by simp
  qed
qed

theorem nested_constructor_resolved_witness:
  "parse_component ex_parse ex_descriptor (\<lambda>k. None) = Inl (ParsingError (''Invalid syntax: '' @ ex_descriptor)) \<and>
   parse_component ex_parse ex_descriptor ex_registry =
     Inr ((''pkg.Thing'', [VInt 1, VObj 42, VBool True]), [CtorCall (KName ''data'') (VStr ''path/to/file'')])"
proof -
  let ?body = "[Expr (Call (Attribute (Name ''pkg'') ''Thing'')
                    [Num 1, Call (Name ''data'') [Str ''path/to/file''], NameConstant (Some True)])]"
  have a: "ex_parse ex_descriptor = Inr ?body"
    by (simp add: ex_parse_def ex_descriptor_def)
  have b: "extract_component_call ?body =
      Inr (Attribute (Name ''pkg'') ''Thing'', [Num 1] @ Call (Name ''data'') [Str ''path/to/file''] # [NameConstant (Some True)])"
    by simp
  have c: "component_ast_to_path (Attribute (Name ''pkg'') ''Thing'') = Inr ''pkg.Thing''"
    by simp
  have pre: "transform_args ex_descriptor cs [Num 1] ([], []) = Inr ([VInt 1], [])" for cs
    by (simp add: is_literal_def)
  have post: "transform_args ex_descriptor cs [NameConstant (Some True)] ([], []) = Inr ([VBool True], [])" for cs
    by (simp add: is_literal_def)
  have r: "ex_registry (KName ''data'') = Some (\<lambda>v. VObj 42)"
    by (simp add: ex_registry_def)
  note inst = nested_constructor_resolved[where ast_parse = ex_parse and d = ex_descriptor and body = ?body
      and fn = "Attribute (Name ''pkg'') ''Thing''" and pre = "[Num 1]" and c = "''data''"
      and s = "''path/to/file''" and post = "[NameConstant (Some True)]" and path = "''pkg.Thing''",
      OF a b c]
  from inst[of "\<lambda>k. None"] pre
  have 1: "parse_component ex_parse ex_descriptor (\<lambda>k. None) = Inl (ParsingError (''Invalid syntax: '' @ ex_descriptor))"
    by simp
  from inst[of ex_registry] r pre[of ex_registry] post[of ex_registry]
  have 2: "parse_component ex_parse ex_descriptor ex_registry =
     Inr ((''pkg.Thing'', [VInt 1, VObj 42, VBool True]), [CtorCall (KName ''data'') (VStr ''path/to/file'')])"
    by simp
  from 1 2 show ?thesis by simp
qed
section \<open>Properties of the loader\<close>












section \<open>Properties of the setup pass\<close>

subsection \<open>Auxiliary facts\<close>

lemma setup_calls_append: "setup_calls (xs @ ys) = setup_calls xs @ setup_calls ys"
  by (induction xs rule: setup_calls.induct) auto

lemma py_in_self: "Obj a \<in> set ys \<Longrightarrow> py_in h a ys"
  by (auto simp: py_in_def list_ex_iff)

lemma py_in_append: "py_in h a xs \<Longrightarrow> py_in h a (xs @ ys)"
  by (auto simp: py_in_def list_ex_iff)

lemma py_in_identity: "py_in h a ds \<Longrightarrow> (\<forall>e. py_eq h a e \<longrightarrow> e = Obj a) \<Longrightarrow> Obj a \<in> set ds"
  by (auto simp: py_in_def list_ex_iff)

lemmas step_splits = list.splits ref.splits option.splits if_splits setup_result.splits
  returned.splits

lemma step_shape:
  assumes "step h b s = Inr s'"
  shows "\<exists>c rest extra. components s = c # rest \<and> components s' = rest @ extra"
  using assms by (auto simp: step_def Let_def split: step_splits)

lemma step_self_components_mono:
  assumes "step h b s = Inr s'"
  shows "\<exists>ys. self_components s' = self_components s @ ys"
  using assms by (auto simp: step_def Let_def split: step_splits)

lemma step_done_mono:
  assumes "step h b s = Inr s'"
  shows "\<exists>ys. done_list s' = done_list s @ ys"
  using assms by (auto simp: step_def Let_def split: step_splits)

lemma step_head_done:
  assumes "step h b s = Inr s'" "components s = Obj a # rest" "setup_attr h a \<noteq> None"
  shows "py_in h a (done_list s')"
  using assms by (auto simp: step_def Let_def py_in_self split: step_splits)

lemma steps_fifo:
  "steps h b k s = Inr s' \<Longrightarrow> k \<le> length (components s) \<Longrightarrow>
     \<exists>extra. components s' = drop k (components s) @ extra"
proof (induction k arbitrary: s)
  case 0
  then show ?case by simp
next
  case (Suc k)
  from Suc.prems(1) obtain s1 where s1: "step h b s = Inr s1" and r: "steps h b k s1 = Inr s'"
    by (auto split: sum.splits)
  from step_shape[OF s1] obtain c rest extra where
    sh: "components s = c # rest" "components s1 = rest @ extra" by blast
  from Suc.prems(2) sh have "k \<le> length (components s1)" by simp
  from Suc.IH[OF r this] obtain extra' where
    "components s' = drop k (components s1) @ extra'" by blast
  with sh Suc.prems(2) show ?case by simp
qed

lemma setup_loop_split:
  "k \<le> length (components s) \<Longrightarrow>
   setup_loop h b (k + n) s =
     (case steps h b k s of Inl e \<Rightarrow> Some (Inl e) | Inr s' \<Rightarrow> setup_loop h b n s')"
proof (induction k arbitrary: s)
  case 0
  then show ?case by simp
next
  case (Suc k)
  then have ne: "components s \<noteq> []" by auto
  show ?case
  proof (cases "step h b s")
    case (Inl e)
    with ne show ?thesis by simp
  next
    case (Inr s1)
    from step_shape[OF Inr] Suc.prems have "k \<le> length (components s1)" by auto
    from Suc.IH[OF this] Inr ne show ?thesis by simp
  qed
qed

lemma setup_loop_fuel_mono:
  "setup_loop h b n s = Some r \<Longrightarrow> setup_loop h b (n + m) s = Some r"
proof (induction n arbitrary: s)
  case 0
  then show ?case by (cases m) (auto split: if_splits)
next
  case (Suc n)
  then show ?case by (auto split: if_splits sum.splits)
qed

lemma setup_loop_from_steps:
  "steps h b k s0 = Inr s \<Longrightarrow> setup_loop h b fuel s0 = Some (Inr final) \<Longrightarrow>
   \<exists>n. setup_loop h b n s = Some (Inr final)"
proof (induction k arbitrary: s0 fuel)
  case 0
  then show ?case by auto
next
  case (Suc k)
  from Suc.prems(1) obtain s1 where s1: "step h b s0 = Inr s1" and r: "steps h b k s1 = Inr s"
    by (auto split: sum.splits)
  from step_shape[OF s1] have ne: "components s0 \<noteq> []" by auto
  with Suc.prems(2) s1 obtain n where "setup_loop h b n s1 = Some (Inr final)"
    by (cases fuel) auto
  from Suc.IH[OF r this] show ?case .
qed

lemma setup_loop_done_mono:
  "setup_loop h b n s = Some (Inr final) \<Longrightarrow> \<exists>ys. done_list final = done_list s @ ys"
proof (induction n arbitrary: s)
  case 0
  then show ?case by (auto split: if_splits)
next
  case (Suc n)
  show ?case
  proof (cases "components s = []")
    case True
    with Suc.prems show ?thesis by simp
  next
    case False
    with Suc.prems obtain s1 where s1: "step h b s = Inr s1"
      and r: "setup_loop h b n s1 = Some (Inr final)"
      by (auto split: sum.splits)
    from Suc.IH[OF r] step_done_mono[OF s1] show ?thesis by auto
  qed
qed

lemma setup_loop_self_components_mono:
  "setup_loop h b n s = Some (Inr final) \<Longrightarrow> \<exists>ys. self_components final = self_components s @ ys"
proof (induction n arbitrary: s)
  case 0
  then show ?case by (auto split: if_splits)
next
  case (Suc n)
  show ?case
  proof (cases "components s = []")
    case True
    with Suc.prems show ?thesis by simp
  next
    case False
    with Suc.prems obtain s1 where s1: "step h b s = Inr s1"
      and r: "setup_loop h b n s1 = Some (Inr final)"
      by (auto split: sum.splits)
    from Suc.IH[OF r] step_self_components_mono[OF s1] show ?thesis by auto
  qed
qed

lemma setup_loop_coverage:
  "setup_loop h b n s = Some (Inr final) \<Longrightarrow> Obj a \<in> set (components s) \<Longrightarrow>
   setup_attr h a \<noteq> None \<Longrightarrow> py_in h a (done_list final)"
proof (induction n arbitrary: s)
  case 0
  then show ?case by (auto split: if_splits)
next
  case (Suc n)
  from Suc.prems(2) have ne: "components s \<noteq> []" by auto
  with Suc.prems(1) obtain s1 where s1: "step h b s = Inr s1"
    and r: "setup_loop h b n s1 = Some (Inr final)"
    by (auto split: sum.splits)
  from step_shape[OF s1] obtain c rest extra where
    sh: "components s = c # rest" "components s1 = rest @ extra" by blast
  show ?case
  proof (cases "c = Obj a")
    case True
    with step_head_done[OF s1 _ Suc.prems(3)] sh have "py_in h a (done_list s1)" by simp
    with setup_loop_done_mono[OF r] show ?thesis by (auto simp: py_in_append)
  next
    case False
    with Suc.prems(2) sh have "Obj a \<in> set (components s1)" by auto
    from Suc.IH[OF r this Suc.prems(3)] show ?thesis .
  qed
qed

lemma step_calls_inv_Inr: "calls_inv pre s \<Longrightarrow> step h b s = Inr s' \<Longrightarrow> calls_inv pre s'"
  by (auto simp: step_def calls_inv_def Let_def setup_calls_append py_in_self split: step_splits)

lemma step_calls_inv_Inl: "calls_inv pre s \<Longrightarrow> step h b s = Inl (e, s') \<Longrightarrow>
   \<exists>calls. setup_calls (events s') = pre @ calls \<and> distinct calls"
  by (auto simp: step_def calls_inv_def Let_def setup_calls_append py_in_self split: step_splits)

lemma steps_calls_inv: "calls_inv pre s \<Longrightarrow> steps h b k s = Inr s' \<Longrightarrow> calls_inv pre s'"
proof (induction k arbitrary: s)
  case 0
  then show ?case by simp
next
  case (Suc k)
  from Suc.prems(2) obtain s1 where s1: "step h b s = Inr s1" and r: "steps h b k s1 = Inr s'"
    by (auto split: sum.splits)
  from Suc.IH[OF step_calls_inv_Inr[OF Suc.prems(1) s1] r] show ?case .
qed

lemma setup_loop_calls_inv:
  "calls_inv pre s \<Longrightarrow> setup_loop h b n s = Some r \<Longrightarrow>
   (case r of Inr s' \<Rightarrow> calls_inv pre s'
            | Inl (e, s') \<Rightarrow> \<exists>calls. setup_calls (events s') = pre @ calls \<and> distinct calls)"
proof (induction n arbitrary: s)
  case 0
  then show ?case by (auto split: if_splits)
next
  case (Suc n)
  show ?case
  proof (cases "components s = []")
    case True
    with Suc.prems show ?thesis by auto
  next
    case False
    show ?thesis
    proof (cases "step h b s")
      case (Inl es)
      with False Suc.prems(2) have "r = Inl es" by simp
      with step_calls_inv_Inl[OF Suc.prems(1), of h b "fst es" "snd es"] Inl show ?thesis
        by (cases es) auto
    next
      case (Inr s1)
      with False Suc.prems(2) have "setup_loop h b n s1 = Some r" by simp
      from Suc.IH[OF step_calls_inv_Inr[OF Suc.prems(1) Inr] this] show ?thesis .
    qed
  qed
qed

lemma step_done_setup:
  assumes "step h b s = r" "\<forall>c. Obj c \<in> set (done_list s) \<longrightarrow> setup_attr h c \<noteq> None"
  shows "\<forall>c. Obj c \<in> set (done_list (state_of r)) \<longrightarrow> setup_attr h c \<noteq> None"
  using assms by (auto simp: step_def Let_def state_of_def split: step_splits)

lemma steps_done_setup:
  "steps h b k s = Inr s' \<Longrightarrow> \<forall>c. Obj c \<in> set (done_list s) \<longrightarrow> setup_attr h c \<noteq> None \<Longrightarrow>
   \<forall>c. Obj c \<in> set (done_list s') \<longrightarrow> setup_attr h c \<noteq> None"
proof (induction k arbitrary: s)
  case 0
  then show ?case by simp
next
  case (Suc k)
  from Suc.prems(1) obtain s1 where s1: "step h b s = Inr s1" and r: "steps h b k s1 = Inr s'"
    by (auto split: sum.splits)
  from step_done_setup[OF s1 Suc.prems(2)]
  have "\<forall>c. Obj c \<in> set (done_list s1) \<longrightarrow> setup_attr h c \<noteq> None"
    by (simp add: state_of_def)
  from Suc.IH[OF r this] show ?case .
qed

lemma setup_loop_done_setup:
  "setup_loop h b n s = Some r \<Longrightarrow> \<forall>c. Obj c \<in> set (done_list s) \<longrightarrow> setup_attr h c \<noteq> None \<Longrightarrow>
   \<forall>c. Obj c \<in> set (done_list (state_of r)) \<longrightarrow> setup_attr h c \<noteq> None"
proof (induction n arbitrary: s)
  case 0
  then show ?case by (auto simp: state_of_def split: if_splits)
next
  case (Suc n)
  show ?case
  proof (cases "components s = []")
    case True
    with Suc.prems show ?thesis by (auto simp: state_of_def)
  next
    case False
    show ?thesis
    proof (cases "step h b s")
      case (Inl es)
      with False Suc.prems(1) have "r = Inl es" by simp
      with step_done_setup[OF Inl Suc.prems(2)] show ?thesis by simp
    next
      case (Inr s1)
      with False Suc.prems(1) have l: "setup_loop h b n s1 = Some r" by simp
      from step_done_setup[OF Inr Suc.prems(2)]
      have "\<forall>c. Obj c \<in> set (done_list s1) \<longrightarrow> setup_attr h c \<noteq> None"
        by (simp add: state_of_def)
      from Suc.IH[OF l this] show ?thesis .
    qed
  qed
qed

lemma count_list_append': "count_list (xs @ ys) x = count_list xs x + count_list ys x"
  by (induction xs) auto

lemma step_merges:
  assumes "step h b s = Inr s1" "components s = c # rest"
    "\<forall>x. Obj x \<in> set (done_list s) \<longrightarrow> setup_attr h x \<noteq> None"
    "setup_attr h a = None" "configuration_defaults h a = Some d"
    "\<forall>e. py_eq h a e \<longrightarrow> e = Obj a"
  shows "count_list (events s1) (ReadDict d ''component_configs'' (Obj a)) =
           count_list (events s) (ReadDict d ''component_configs'' (Obj a)) +
           (if c = Obj a then 1 else 0)"
proof -
  have nin: "\<not> py_in h a (done_list s)"
    using assms(3,4,6) py_in_identity[of h a "done_list s"] by auto
  show ?thesis
    using assms nin
    by (auto simp: step_def Let_def count_list_append' split: step_splits)
qed

lemma steps_merges:
  "steps h b k s = Inr s' \<Longrightarrow> k \<le> length (components s) \<Longrightarrow>
   \<forall>x. Obj x \<in> set (done_list s) \<longrightarrow> setup_attr h x \<noteq> None \<Longrightarrow>
   setup_attr h a = None \<Longrightarrow> configuration_defaults h a = Some d \<Longrightarrow>
   \<forall>e. py_eq h a e \<longrightarrow> e = Obj a \<Longrightarrow>
   count_list (events s') (ReadDict d ''component_configs'' (Obj a)) =
     count_list (events s) (ReadDict d ''component_configs'' (Obj a)) +
     count_list (take k (components s)) (Obj a)"
proof (induction k arbitrary: s)
  case 0
  then show ?case by simp
next
  case (Suc k)
  from Suc.prems(1) obtain s1 where s1: "step h b s = Inr s1" and r: "steps h b k s1 = Inr s'"
    by (auto split: sum.splits)
  from step_shape[OF s1] obtain c rest extra where
    sh: "components s = c # rest" "components s1 = rest @ extra" by blast
  from Suc.prems(2) sh have le: "k \<le> length (components s1)" and le': "k \<le> length rest" by simp_all
  from step_done_setup[OF s1 Suc.prems(3)]
  have d1: "\<forall>x. Obj x \<in> set (done_list s1) \<longrightarrow> setup_attr h x \<noteq> None"
    by (simp add: state_of_def)
  note one = step_merges[OF s1 sh(1) Suc.prems(3-6)]
  note IH = Suc.IH[OF r le d1 Suc.prems(4-6)]
  from sh le' have "take k (components s1) = take k rest" by simp
  with IH one sh(1) show ?case by simp
qed

lemma steps_Inl_host:
  "steps h b k s = Inl (e, s') \<Longrightarrow> k \<le> length (components s) \<Longrightarrow>
   PyNone \<notin> set (take k (components s)) \<Longrightarrow> e = HostError"
proof (induction k arbitrary: s)
  case 0
  then show ?case by simp
next
  case (Suc k)
  from Suc.prems(2) obtain c rest where cr: "components s = c # rest" by (cases "components s") auto
  with Suc.prems(3) have c: "c \<noteq> PyNone" by auto
  show ?case
  proof (cases "step h b s")
    case (Inl es)
    with Suc.prems(1) have "es = (e, s')" by simp
    with Inl cr c show ?thesis
      by (auto simp: step_def Let_def split: step_splits)
  next
    case (Inr s1)
    with Suc.prems(1) have l: "steps h b k s1 = Inl (e, s')" by simp
    from step_shape[OF Inr] cr obtain extra where sh: "components s1 = rest @ extra" by auto
    with Suc.prems(2,3) cr have "k \<le> length (components s1)" "PyNone \<notin> set (take k (components s1))"
      by (auto dest: in_set_takeD)
    from Suc.IH[OF l this] show ?thesis .
  qed
qed

lemma distinct_count_list_1: "distinct xs \<Longrightarrow> x \<in> set xs \<Longrightarrow> count_list xs x = 1"
  by (induction xs) auto

lemma setup_loop_unfold:
  "setup_loop h b n s =
     (if components s = [] then Some (Inr s)
      else if n = 0 then None
      else (case step h b s of Inl e \<Rightarrow> Some (Inl e) | Inr s' \<Rightarrow> setup_loop h b (n - 1) s'))"
  by (cases n) (auto split: sum.splits)

lemmas ex_simps = setup_loop_unfold ex_host_def ex_defaults_def setup_components_def
  setup_components_twice_def init_state_def step_def py_in_def Let_def

subsection \<open>Setup calls within one pass and across two passes\<close>

text \<open>
  Claim C1 says that a component's setup callback runs at most once across the lifetime
  of the manager, so that two setup passes over the same manager call it once in total.
  The list \<^verbatim>\<open>done\<close> is a local variable of \<^verbatim>\<open>setup_components\<close>, created empty at
  each call: the second pass calls the callback again, as the example shows for a manager
  that holds the single component \<open>1\<close>.
\<close>

theorem setup_twice_counterexample:
  "setup_components_twice ex_host () 1 ([Obj 1], [], []) =
     Some (Inr \<lparr>self_components = [Obj 1], components = [], done_list = [Obj 1],
                 events = [SetupCall (Obj 1), SetupCall (Obj 1)], iterated = []\<rparr>)"
  by (simp add: ex_simps)

text \<open>
  Claim C1, amended: within one call of \<^verbatim>\<open>setup_components\<close>, however it ends (normally
  or by an exception), the setup callbacks called by this pass are called on pairwise
  different objects; that is, each component instance is set up at most once per pass.
\<close>

theorem setup_at_most_once_per_pass:
  assumes "setup_components h b fuel (cs, evs, its) = Some r"
  shows "\<exists>calls. setup_calls (events (state_of r)) = setup_calls evs @ calls \<and> distinct calls"
proof -
  have "calls_inv (setup_calls evs) (init_state (cs, evs, its))"
    by (simp add: calls_inv_def init_state_def)
  from setup_loop_calls_inv[OF this, of h b fuel r] assms show ?thesis
    by (cases r) (auto simp: setup_components_def state_of_def calls_inv_def)
qed

theorem setup_at_most_once_per_pass_witness:
  "setup_components ex_host () 4 ([Obj 0, Obj 1], [], []) \<noteq> None \<and>
   (\<exists>calls. setup_calls (events (state_of (the (setup_components ex_host () 4 ([Obj 0, Obj 1], [], [])))))
              = setup_calls [] @ calls \<and> distinct calls)"
proof -
  have e: "setup_components ex_host () 4 ([Obj 0, Obj 1], [], []) =
     Some (Inr \<lparr>self_components = [Obj 0, Obj 1, Obj 1, Obj 2], components = [],
                 done_list = [Obj 0, Obj 1, Obj 2],
                 events = [ReadDict ex_defaults ''component_configs'' (Obj 0), SetupCall (Obj 0),
                           SetupCall (Obj 1), SetupCall (Obj 2)], iterated = []\<rparr>)"
    by (simp add: ex_simps)
  from setup_at_most_once_per_pass[OF e] e show ?thesis by simp
qed

subsection \<open>Iterable entries\<close>




subsection \<open>Identity and equality in the done list\<close>

text \<open>
  Claim C4 says that \<^verbatim>\<open>done\<close> is keyed by identity, so that two distinct instances that
  compare equal are each set up once. \<^verbatim>\<open>done\<close> is a list and the test is
  \<^verbatim>\<open>component not in done\<close>, which compares with \<^verbatim>\<open>==\<close> as well: of the distinct
  objects \<open>1\<close> and \<open>6\<close>, where \<open>6 == 1\<close> and both have a setup callback, only \<open>1\<close> is set
  up.
\<close>

theorem equal_instances_counterexample:
  "Obj 6 \<noteq> Obj 1 \<and> py_eq ex_host 6 (Obj 1) \<and>
   setup_attr ex_host 6 \<noteq> None \<and> setup_attr ex_host 1 \<noteq> None \<and>
   setup_components ex_host () 2 ([Obj 1, Obj 6], [], []) =
     Some (Inr \<lparr>self_components = [Obj 1, Obj 6], components = [], done_list = [Obj 1],
                 events = [SetupCall (Obj 1)], iterated = []\<rparr>)"
  by (simp add: ex_simps)

text \<open>
  Claim C4, amended: membership in \<^verbatim>\<open>done\<close> is Python's \<^verbatim>\<open>in\<close> (identity or
  \<^verbatim>\<open>==\<close>). An instance in the manager's list that has a setup callback and compares
  equal to nothing but itself (the default equality of objects) is set up exactly once by a
  pass that completes, independently of every other instance; an entry that is found
  \<^verbatim>\<open>in done\<close> when it is dequeued, be it by \<^verbatim>\<open>==\<close> alone, is skipped: no callback is
  invoked and nothing is added to \<^verbatim>\<open>done\<close>.
\<close>

theorem identity_instance_set_up_once:
  "(setup_components h b fuel (cs, evs, its) = Some (Inr final) \<and> Obj a \<in> set cs \<and>
      setup_attr h a \<noteq> None \<and> (\<forall>e. py_eq h a e \<longrightarrow> e = Obj a) \<longrightarrow>
      count_list (setup_calls (events final)) (Obj a) = count_list (setup_calls evs) (Obj a) + 1) \<and>
   (components s = Obj c # rest \<and> py_in h c (done_list s) \<longrightarrow>
      events (state_of (step h b s)) = events s \<and>
      done_list (state_of (step h b s)) = done_list s)"
proof (intro conjI impI)
  assume asm: "setup_components h b fuel (cs, evs, its) = Some (Inr final) \<and> Obj a \<in> set cs \<and>
      setup_attr h a \<noteq> None \<and> (\<forall>e. py_eq h a e \<longrightarrow> e = Obj a)"
  let ?s0 = "init_state (cs, evs, its)"
  have l: "setup_loop h b fuel ?s0 = Some (Inr final)"
    using asm by (simp add: setup_components_def)
  have "calls_inv (setup_calls evs) ?s0" by (simp add: calls_inv_def init_state_def)
  from setup_loop_calls_inv[OF this l]
  have i: "setup_calls (events final) = setup_calls evs @ done_list final"
    and d: "distinct (done_list final)" by (simp_all add: calls_inv_def)
  from setup_loop_coverage[OF l, of a] asm have "py_in h a (done_list final)"
    by (simp add: init_state_def)
  from py_in_identity[OF this] asm have "Obj a \<in> set (done_list final)" by blast
  with d have "count_list (done_list final) (Obj a) = 1"
    by (rule distinct_count_list_1)
  with i show "count_list (setup_calls (events final)) (Obj a)
      = count_list (setup_calls evs) (Obj a) + 1"
    by (simp add: count_list_append')
next
  assume "components s = Obj c # rest \<and> py_in h c (done_list s)"
  then show "events (state_of (step h b s)) = events s"
    and "done_list (state_of (step h b s)) = done_list s"
    by (auto simp: step_def Let_def state_of_def split: option.splits)
qed

theorem identity_instance_set_up_once_witness:
  "count_list (setup_calls [SetupCall (Obj 1), SetupCall (Obj 2)]) (Obj 2)
     = count_list (setup_calls []) (Obj 2) + 1 \<and>
   events (state_of (step ex_host ()
      \<lparr>self_components = [Obj 1, Obj 6], components = [Obj 6], done_list = [Obj 1],
        events = [SetupCall (Obj 1)], iterated = []\<rparr>)) = [SetupCall (Obj 1)]"
proof -
  let ?final = "\<lparr>self_components = [Obj 1, Obj 2], components = [], done_list = [Obj 1, Obj 2],
                 events = [SetupCall (Obj 1), SetupCall (Obj 2)], iterated = []\<rparr>"
  let ?s = "\<lparr>self_components = [Obj 1, Obj 6], components = [Obj 6], done_list = [Obj 1],
        events = [SetupCall (Obj 1)], iterated = []\<rparr>"
  have e: "setup_components ex_host () 2 ([Obj 1, Obj 2], [], []) = Some (Inr ?final)"
    by (simp add: ex_simps)
  have p: "Obj 2 \<in> set [Obj 1, Obj 2]" "setup_attr ex_host 2 \<noteq> None"
    "\<forall>e. py_eq ex_host 2 e \<longrightarrow> e = Obj 2"
    by (simp_all add: ex_host_def)
  have q: "components ?s = Obj 6 # []" "py_in ex_host 6 (done_list ?s)"
    by (simp_all add: ex_host_def py_in_def)
  note inst = identity_instance_set_up_once[where h = ex_host and b = "()" and fuel = 2
      and cs = "[Obj 1, Obj 2]" and evs = "[]" and its = "[]" and final = ?final and a = 2
      and s = ?s and c = 6 and rest = "[]"]
  from inst e p q show ?thesis by simp
qed

subsection \<open>A \<open>None\<close> entry\<close>

text \<open>
  Claim C7: whenever the worklist holds a \<^verbatim>\<open>None\<close> entry, behind the entries \<open>pre\<close>, a
  pass with enough fuel to reach it (one iteration per entry of \<open>pre\<close>, and one more) ends
  with an exception. If the iterations on \<open>pre\<close> end normally, in the state \<open>s'\<close>, then
  \<^verbatim>\<open>None\<close> is the entry dequeued next, the exception is the \<^verbatim>\<open>ComponentConfigError\<close>, and
  it is raised in the state \<open>s'\<close> with \<^verbatim>\<open>None\<close> popped: the entries behind \<^verbatim>\<open>None\<close> are
  still in the worklist, and no callback is invoked and no defaults are merged beyond what
  the entries of \<open>pre\<close> caused. Otherwise the pass has already ended with the exception
  of one of those iterations, which is that of a setup callback when \<open>pre\<close> holds no
  \<^verbatim>\<open>None\<close>.
\<close>

theorem none_aborts_pass:
  assumes "components s = pre @ PyNone # post" "length pre < fuel"
  shows "case steps h b (length pre) s of
           Inl (e, s') \<Rightarrow>
             setup_loop h b fuel s = Some (Inl (e, s')) \<and> (PyNone \<notin> set pre \<longrightarrow> e = HostError)
         | Inr s' \<Rightarrow>
             (\<exists>extra. components s' = PyNone # post @ extra) \<and>
             setup_loop h b fuel s =
               Some (Inl (ComponentConfigError none_message,
                          s'\<lparr>components := tl (components s')\<rparr>))"
proof -
  from assms(2) obtain n where fuel: "fuel = length pre + Suc n"
    by (metis less_iff_Suc_add add_Suc_right)
  have le: "length pre \<le> length (components s)" using assms(1) by simp
  note split = setup_loop_split[OF le, of h b "Suc n"]
  show ?thesis
  proof (cases "steps h b (length pre) s")
    case (Inl es)
    obtain e s' where es: "es = (e, s')" by (cases es)
    have "PyNone \<notin> set pre \<Longrightarrow> e = HostError"
      using steps_Inl_host[of h b "length pre" s e s'] Inl es le assms(1) by simp
    with Inl es split fuel show ?thesis by simp
  next
    case (Inr s')
    from steps_fifo[OF Inr le] assms(1) obtain extra where
      c: "components s' = PyNone # post @ extra" by auto
    then have "setup_loop h b (Suc n) s' =
        Some (Inl (ComponentConfigError none_message, s'\<lparr>components := tl (components s')\<rparr>))"
      by (simp add: step_def)
    with Inr split fuel c show ?thesis by simp
  qed
qed

theorem none_aborts_pass_witness:
  "setup_loop ex_host () 5 \<lparr>self_components = [Obj 1, Obj 3, PyNone, Obj 2],
       components = [Obj 1, Obj 3, PyNone, Obj 2], done_list = [], events = [], iterated = []\<rparr> =
   Some (Inl (ComponentConfigError none_message,
     \<lparr>self_components = [Obj 1, Obj 3, PyNone, Obj 2], components = [Obj 2], done_list = [Obj 1],
      events = [SetupCall (Obj 1), ReadDict ex_defaults ''component_configs'' (Obj 3)],
      iterated = []\<rparr>))"
proof -
  let ?s = "\<lparr>self_components = [Obj 1, Obj 3, PyNone, Obj 2],
       components = [Obj 1, Obj 3, PyNone, Obj 2], done_list = [], events = [], iterated = []\<rparr>"
  have st: "steps ex_host () (length [Obj 1, Obj 3]) ?s =
     Inr \<lparr>self_components = [Obj 1, Obj 3, PyNone, Obj 2], components = [PyNone, Obj 2],
          done_list = [Obj 1],
          events = [SetupCall (Obj 1), ReadDict ex_defaults ''component_configs'' (Obj 3)],
          iterated = []\<rparr>"
    by (simp add: ex_host_def step_def py_in_def Let_def)
  have "components ?s = [Obj 1, Obj 3] @ PyNone # [Obj 2]" "length [Obj 1, Obj 3] < (5::nat)"
    by simp_all
  from none_aborts_pass[OF this, of ex_host "()"] st show ?thesis
    by simp
qed

subsection \<open>Components discovered during setup\<close>

text \<open>
  Claim C9 says that when the setup callback of \<open>A\<close> returns \<open>[B, C]\<close>, after the full
  pass both are in the manager's list and have completed setup, no earlier than the
  components that were pending. The test before a setup call is \<^verbatim>\<open>not in done\<close>, which
  compares with \<^verbatim>\<open>==\<close>: the setup of \<open>9\<close> returns \<open>[6, 2]\<close>, where \<open>6\<close> has a setup
  callback and \<open>6 == 1\<close>; with \<open>1\<close> set up before, the pass completes and \<open>6\<close> is never
  set up.
\<close>

theorem discovered_equal_counterexample:
  "setup_attr ex_host 9 = Some (\<lambda>b. Returns (RetSeq [Obj 6, Obj 2])) \<and>
   setup_attr ex_host 6 \<noteq> None \<and>
   setup_components ex_host () 4 ([Obj 1, Obj 9], [], []) =
     Some (Inr \<lparr>self_components = [Obj 1, Obj 9, Obj 6, Obj 2], components = [],
                 done_list = [Obj 1, Obj 9, Obj 2],
                 events = [SetupCall (Obj 1), SetupCall (Obj 9), SetupCall (Obj 2)],
                 iterated = []\<rparr>)"
  by (simp add: ex_simps)

text \<open>
  Claim C9, amended. Let a pass that completes reach a state in which \<open>a\<close> is dequeued,
  with the entries \<open>pending\<close> behind it, is not \<^verbatim>\<open>in done\<close>, and its setup callback
  returns the sequence \<open>subs\<close>. Then the iteration appends \<open>subs\<close> to the back of the
  worklist and of \<^verbatim>\<open>self.components\<close> (behind what the iterations of \<open>a\<close> yield, should
  \<open>a\<close> be iterable too); for every \<open>k\<close> up to the number of pending entries, after \<open>k\<close>
  further iterations the worklist still holds \<open>subs\<close> behind what is left of \<open>pending\<close>,
  so no member of \<open>subs\<close> is dequeued before a pending entry; at the end of the pass every
  member of \<open>subs\<close> is in \<^verbatim>\<open>self.components\<close>; every member that has a setup callback
  passes the test \<^verbatim>\<open>in done\<close> (it is an entry of \<^verbatim>\<open>done\<close> or compares equal to one);
  and every member that has a setup callback and compares equal to nothing but itself has
  been set up exactly once by the pass.
\<close>

theorem discovery_expansion:
  assumes "setup_components h b fuel (cs, evs, its) = Some (Inr final)"
    "steps h b j (init_state (cs, evs, its)) = Inr s"
    "components s = Obj a # pending" "\<not> py_in h a (done_list s)"
    "setup_attr h a = Some f" "f b = Returns (RetSeq subs)"
  shows "\<exists>s1 els els'. step h b s = Inr s1 \<and>
      components s1 = pending @ els @ subs \<and>
      self_components s1 = self_components s @ els' @ subs \<and>
      (\<forall>k s2. k \<le> length pending \<longrightarrow> steps h b k s1 = Inr s2 \<longrightarrow>
          (\<exists>extra. components s2 = drop k pending @ els @ subs @ extra)) \<and>
      set subs \<subseteq> set (self_components final) \<and>
      (\<forall>c. Obj c \<in> set subs \<longrightarrow> setup_attr h c \<noteq> None \<longrightarrow>
           py_in h c (done_list final) \<and>
           ((\<forall>e. py_eq h c e \<longrightarrow> e = Obj c) \<longrightarrow>
              count_list (setup_calls (events final)) (Obj c) =
                count_list (setup_calls evs) (Obj c) + 1))"
proof -
  let ?s0 = "init_state (cs, evs, its)"
  define els where "els = (case iter_elems h a of None \<Rightarrow> []
                           | Some elems \<Rightarrow> elems (count_list (iterated s) a))"
  define els' where "els' = (case iter_elems h a of None \<Rightarrow> []
                            | Some elems \<Rightarrow> elems (Suc (count_list (iterated s) a)))"
  have "\<exists>s1. step h b s = Inr s1 \<and> components s1 = pending @ els @ subs \<and>
           self_components s1 = self_components s @ els' @ subs"
    using assms(3-6)
    by (cases "iter_elems h a"; cases "configuration_defaults h a"; cases subs)
       (simp_all add: step_def Let_def els_def els'_def)
  then obtain s1 where s1: "step h b s = Inr s1"
    and c1: "components s1 = pending @ els @ subs"
    and sc1: "self_components s1 = self_components s @ els' @ subs"
    by blast
  have fifo: "\<exists>extra. components s2 = drop k pending @ els @ subs @ extra"
    if "k \<le> length pending" "steps h b k s1 = Inr s2" for k s2
  proof -
    from that(1) c1 have "k \<le> length (components s1)" by simp
    from steps_fifo[OF that(2) this] c1 that(1) show ?thesis by auto
  qed
  have l0: "setup_loop h b fuel ?s0 = Some (Inr final)"
    using assms(1) by (simp add: setup_components_def)
  from setup_loop_from_steps[OF assms(2) l0] obtain m where
    lm: "setup_loop h b m s = Some (Inr final)" by blast
  with assms(3) s1 obtain n where l: "setup_loop h b n s1 = Some (Inr final)"
    by (cases m) auto
  have "calls_inv (setup_calls evs) ?s0" by (simp add: calls_inv_def init_state_def)
  from setup_loop_calls_inv[OF this l0]
  have i: "setup_calls (events final) = setup_calls evs @ done_list final"
    and d: "distinct (done_list final)" by (simp_all add: calls_inv_def)
  from setup_loop_self_components_mono[OF l] sc1
  have sub: "set subs \<subseteq> set (self_components final)" by auto
  have fin: "py_in h c (done_list final) \<and>
           ((\<forall>e. py_eq h c e \<longrightarrow> e = Obj c) \<longrightarrow>
              count_list (setup_calls (events final)) (Obj c) =
                count_list (setup_calls evs) (Obj c) + 1)"
    if "Obj c \<in> set subs" "setup_attr h c \<noteq> None" for c
  proof -
    have p: "py_in h c (done_list final)"
      using setup_loop_coverage[OF l _ that(2)] that(1) c1 by simp
    have "count_list (setup_calls (events final)) (Obj c) =
                count_list (setup_calls evs) (Obj c) + 1"
      if "\<forall>e. py_eq h c e \<longrightarrow> e = Obj c"
    proof -
      from py_in_identity[OF p that] have "Obj c \<in> set (done_list final)" .
      with d have "count_list (done_list final) (Obj c) = 1"
        by (rule distinct_count_list_1)
      with i show ?thesis by (simp add: count_list_append')
    qed
    with p show ?thesis by blast
  qed
  from s1 c1 sc1 fifo sub fin show ?thesis by blast
qed

theorem discovery_expansion_witness:
  "step ex_host ()
      \<lparr>self_components = [Obj 0, Obj 3], components = [Obj 0, Obj 3], done_list = [],
        events = [], iterated = []\<rparr> =
     Inr \<lparr>self_components = [Obj 0, Obj 3, Obj 1, Obj 2], components = [Obj 3, Obj 1, Obj 2],
          done_list = [Obj 0],
          events = [ReadDict ex_defaults ''component_configs'' (Obj 0), SetupCall (Obj 0)],
          iterated = []\<rparr> \<and>
   set [Obj 1, Obj 2] \<subseteq> set [Obj 0, Obj 3, Obj 1, Obj 2] \<and>
   count_list (setup_calls [ReadDict ex_defaults ''component_configs'' (Obj 0), SetupCall (Obj 0),
                       ReadDict ex_defaults ''component_configs'' (Obj 3), SetupCall (Obj 1),
                       SetupCall (Obj 2)]) (Obj 1) = count_list (setup_calls []) (Obj 1) + 1 \<and>
   (\<exists>els extra. [Obj 1, Obj 2] = drop 1 [Obj 3] @ els @ [Obj 1, Obj 2] @ extra)"
proof -
  let ?s = "\<lparr>self_components = [Obj 0, Obj 3], components = [Obj 0, Obj 3], done_list = [],
        events = [], iterated = []\<rparr>"
  let ?f = "\<lparr>self_components = [Obj 0, Obj 3, Obj 1, Obj 2], components = [],
             done_list = [Obj 0, Obj 1, Obj 2],
             events = [ReadDict ex_defaults ''component_configs'' (Obj 0), SetupCall (Obj 0),
                       ReadDict ex_defaults ''component_configs'' (Obj 3), SetupCall (Obj 1),
                       SetupCall (Obj 2)], iterated = []\<rparr>"
  have l: "setup_components ex_host () 4 ([Obj 0, Obj 3], [], []) = Some (Inr ?f)"
    by (simp add: ex_simps)
  have r: "steps ex_host () 0 (init_state ([Obj 0, Obj 3], [], [])) = Inr ?s"
    by (simp add: init_state_def)
  have a: "components ?s = Obj 0 # [Obj 3]" "\<not> py_in ex_host 0 (done_list ?s)"
    "setup_attr ex_host 0 = Some (\<lambda>b. Returns (RetSeq [Obj 1, Obj 2]))"
    "(\<lambda>b. Returns (RetSeq [Obj 1, Obj 2])) () = Returns (RetSeq [Obj 1, Obj 2])"
    by (simp_all add: ex_host_def py_in_def)
  have st: "step ex_host () ?s =
     Inr \<lparr>self_components = [Obj 0, Obj 3, Obj 1, Obj 2], components = [Obj 3, Obj 1, Obj 2],
          done_list = [Obj 0],
          events = [ReadDict ex_defaults ''component_configs'' (Obj 0), SetupCall (Obj 0)],
          iterated = []\<rparr>"
    by (simp add: ex_simps)
  have h: "Obj 1 \<in> set [Obj 1, Obj 2]" "setup_attr ex_host 1 \<noteq> None"
    "\<forall>e. py_eq ex_host 1 e \<longrightarrow> e = Obj 1"
    by (simp_all add: ex_host_def)
  let ?s2 = "\<lparr>self_components = [Obj 0, Obj 3, Obj 1, Obj 2], components = [Obj 1, Obj 2],
          done_list = [Obj 0],
          events = [ReadDict ex_defaults ''component_configs'' (Obj 0), SetupCall (Obj 0),
                    ReadDict ex_defaults ''component_configs'' (Obj 3)],
          iterated = []\<rparr>"
  from discovery_expansion[OF l r a] obtain s1 els els' where
    s1: "step ex_host () ?s = Inr s1"
    and fifo: "\<forall>k s2. k \<le> length [Obj 3] \<longrightarrow> steps ex_host () k s1 = Inr s2 \<longrightarrow>
          (\<exists>extra. components s2 = drop k [Obj 3] @ els @ [Obj 1, Obj 2] @ extra)"
    and
    "set [Obj 1, Obj 2] \<subseteq> set (self_components ?f)"
    "\<forall>c. Obj c \<in> set [Obj 1, Obj 2] \<longrightarrow> setup_attr ex_host c \<noteq> None \<longrightarrow>
           py_in ex_host c (done_list ?f) \<and>
           ((\<forall>e. py_eq ex_host c e \<longrightarrow> e = Obj c) \<longrightarrow>
              count_list (setup_calls (events ?f)) (Obj c) =
                count_list (setup_calls []) (Obj c) + 1)"
    by blast
  with h have fin: "set [Obj 1, Obj 2] \<subseteq> set (self_components ?f)"
    "count_list (setup_calls (events ?f)) (Obj 1) = count_list (setup_calls []) (Obj 1) + 1"
    by blast+
  from s1 st have eq: "s1 = \<lparr>self_components = [Obj 0, Obj 3, Obj 1, Obj 2],
          components = [Obj 3, Obj 1, Obj 2], done_list = [Obj 0],
          events = [ReadDict ex_defaults ''component_configs'' (Obj 0), SetupCall (Obj 0)],
          iterated = []\<rparr>"
    by simp
  have "steps ex_host () 1 s1 = Inr ?s2"
    unfolding eq by (simp add: ex_host_def ex_defaults_def step_def py_in_def Let_def)
  with fifo have "\<exists>extra. components ?s2 = drop 1 [Obj 3] @ els @ [Obj 1, Obj 2] @ extra"
    by (metis One_nat_def length_Cons list.size(3) order_refl)
  then have "\<exists>els extra. [Obj 1, Obj 2] = drop 1 [Obj 3] @ els @ [Obj 1, Obj 2] @ extra"
    by auto
  with fin st show ?thesis by simp
qed

subsection \<open>Components without a setup attribute\<close>

text \<open>
  Claim C10 says that a component without a \<^verbatim>\<open>setup\<close> attribute is never added to
  \<^verbatim>\<open>done\<close> and that, consequently, its declared defaults are merged once per occurrence in
  the worklist. The first half holds. The second fails for a component that compares equal
  to a member of \<^verbatim>\<open>done\<close>: object \<open>7\<close> has defaults and no setup, occurs twice, and
  \<open>7 == 1\<close>; once \<open>1\<close> is set up, both occurrences are skipped and the defaults are never
  merged.
\<close>

theorem defaults_merge_counterexample:
  "setup_attr ex_host 7 = None \<and> configuration_defaults ex_host 7 = Some ex_defaults \<and>
   count_list [Obj 1, Obj 7, Obj 7] (Obj 7) = 2 \<and>
   setup_components ex_host () 3 ([Obj 1, Obj 7, Obj 7], [], []) =
     Some (Inr \<lparr>self_components = [Obj 1, Obj 7, Obj 7], components = [], done_list = [Obj 1],
                 events = [SetupCall (Obj 1)], iterated = []\<rparr>)"
  by (simp add: ex_simps)

text \<open>
  Claim C10, amended: however a pass ends, \<^verbatim>\<open>done\<close> holds only objects that have a
  \<^verbatim>\<open>setup\<close> attribute. If a component without one declares defaults and compares equal to
  nothing but itself, then from every state \<open>s\<close> that a pass reaches, the \<open>k\<close> iterations
  that dequeue the first \<open>k\<close> entries of the worklist of \<open>s\<close>, if they end normally, merge
  its defaults once per occurrence among the entries they dequeue. In particular, the
  iterations over the worklist with which the pass starts merge them as many times as the
  component occurs there.
\<close>

theorem no_setup_never_done:
  "(setup_components h b fuel (cs, evs, its) = Some r \<longrightarrow>
      (\<forall>c. Obj c \<in> set (done_list (state_of r)) \<longrightarrow> setup_attr h c \<noteq> None)) \<and>
   (steps h b j (init_state (cs, evs, its)) = Inr s \<and>
    setup_attr h a = None \<and> configuration_defaults h a = Some d \<and>
    (\<forall>e. py_eq h a e \<longrightarrow> e = Obj a) \<and>
    k \<le> length (components s) \<and> steps h b k s = Inr s' \<longrightarrow>
      count_list (events s') (ReadDict d ''component_configs'' (Obj a)) =
        count_list (events s) (ReadDict d ''component_configs'' (Obj a)) +
        count_list (take k (components s)) (Obj a))"
proof (intro conjI impI)
  assume "setup_components h b fuel (cs, evs, its) = Some r"
  then have l: "setup_loop h b fuel (init_state (cs, evs, its)) = Some r"
    by (simp add: setup_components_def)
  show "\<forall>c. Obj c \<in> set (done_list (state_of r)) \<longrightarrow> setup_attr h c \<noteq> None"
    by (rule setup_loop_done_setup[OF l]) (simp add: init_state_def)
next
  assume asm: "steps h b j (init_state (cs, evs, its)) = Inr s \<and>
    setup_attr h a = None \<and> configuration_defaults h a = Some d \<and>
    (\<forall>e. py_eq h a e \<longrightarrow> e = Obj a) \<and>
    k \<le> length (components s) \<and> steps h b k s = Inr s'"
  then have r: "steps h b j (init_state (cs, evs, its)) = Inr s" by simp
  have ds: "\<forall>x. Obj x \<in> set (done_list s) \<longrightarrow> setup_attr h x \<noteq> None"
    by (rule steps_done_setup[OF r]) (simp add: init_state_def)
  from asm have k: "steps h b k s = Inr s'" "k \<le> length (components s)"
    "setup_attr h a = None" "configuration_defaults h a = Some d"
    "\<forall>e. py_eq h a e \<longrightarrow> e = Obj a" by simp_all
  from steps_merges[OF k(1,2) ds k(3,4,5)]
  show "count_list (events s') (ReadDict d ''component_configs'' (Obj a)) =
        count_list (events s) (ReadDict d ''component_configs'' (Obj a)) +
        count_list (take k (components s)) (Obj a)" .
qed

theorem no_setup_never_done_witness:
  "count_list [ReadDict ex_defaults ''component_configs'' (Obj 3), SetupCall (Obj 1),
               ReadDict ex_defaults ''component_configs'' (Obj 3)]
      (ReadDict ex_defaults ''component_configs'' (Obj 3))
     = count_list [] (ReadDict ex_defaults ''component_configs'' (Obj 3)) +
       count_list (take 3 [Obj 3, Obj 1, Obj 3]) (Obj 3) \<and>
   setup_attr ex_host 1 \<noteq> None"
proof -
  let ?s = "init_state ([Obj 3, Obj 1, Obj 3], [], [])"
  let ?f = "\<lparr>self_components = [Obj 3, Obj 1, Obj 3], components = [], done_list = [Obj 1],
                 events = [ReadDict ex_defaults ''component_configs'' (Obj 3), SetupCall (Obj 1),
                           ReadDict ex_defaults ''component_configs'' (Obj 3)], iterated = []\<rparr>"
  have e: "setup_components ex_host () 3 ([Obj 3, Obj 1, Obj 3], [], []) = Some (Inr ?f)"
    by (simp add: ex_simps)
  have r: "steps ex_host () 0 ?s = Inr ?s" by simp
  have st: "steps ex_host () 3 ?s = Inr ?f"
    by (simp add: eval_nat_numeral init_state_def ex_host_def ex_defaults_def step_def py_in_def Let_def)
  have h: "setup_attr ex_host 3 = None" "configuration_defaults ex_host 3 = Some ex_defaults"
    "\<forall>e. py_eq ex_host 3 e \<longrightarrow> e = Obj 3" "3 \<le> length (components ?s)"
    by (simp_all add: ex_host_def init_state_def)
  note inst = no_setup_never_done[where h = ex_host and b = "()" and fuel = 3
      and cs = "[Obj 3, Obj 1, Obj 3]" and evs = "[]" and its = "[]" and r = "Inr ?f"
      and j = 0 and s = ?s and a = 3 and d = ex_defaults and k = 3 and s' = ?f]
  from inst e r st h
  have "(\<forall>c. Obj c \<in> set (done_list (state_of (Inr ?f))) \<longrightarrow> setup_attr ex_host c \<noteq> None)"
    and "count_list (events ?f) (ReadDict ex_defaults ''component_configs'' (Obj 3)) =
        count_list (events ?s) (ReadDict ex_defaults ''component_configs'' (Obj 3)) +
        count_list (take 3 (components ?s)) (Obj 3)"
    by blast+
  then show ?thesis by (simp add: state_of_def init_state_def)
qed

end
